theory Spec2Isabelle
  imports Main
begin

section \<open>Values, serialization and structural equality\<close>

text \<open>
  The store keeps a flat mapping from string keys to values and persists it as JSON.
  Values are therefore modelled as JSON data, and as immutable: a caller that changes an
  object after handing it to the store is not modelled. Numbers are the integers, strings
  are the byte sequences of their UTF-8 encoding, and an object is the list of its own
  properties in enumeration order (keys pairwise distinct; the host's special ordering of
  integer-like keys is not modelled). A read of a property the object does not own falls
  through to \<open>Object.prototype\<close> where the source reads an arbitrary key (in \<open>get\<close>);
  storing under the special key \<open>__proto__\<close> is outside the model. So are the values that
  JSON cannot carry (\<open>undefined\<close>, \<open>NaN\<close>, functions, cyclic objects); \<open>undefined\<close> as the
  result of an own-property read is \<open>None\<close>.
\<close>

datatype json =
    JNull
  | JBool bool
  | JNum int
  | JStr string
  | JArr "json list"
  | JObj "(string \<times> json) list"

type_synonym obj = "(string \<times> json) list"

datatype error = TypeError

fun wf_json :: "json \<Rightarrow> bool" where
  "wf_json (JArr xs) = (\<forall>x \<in> set xs. wf_json x)"
| "wf_json (JObj kvs) = (distinct (map fst kvs) \<and> (\<forall>p \<in> set kvs. wf_json (snd p)))"
| "wf_json v = True"

definition wf_obj :: "obj \<Rightarrow> bool" where
  "wf_obj ob = wf_json (JObj ob)"

subsection \<open>JSON.stringify and Buffer.byteLength\<close>

definition hexdigit :: "nat \<Rightarrow> char" where
  "hexdigit n = (if n < 10 then char_of (48 + n) else char_of (87 + n))"

fun digits :: "nat \<Rightarrow> string" where
  "digits n = (if n < 10 then [hexdigit n] else digits (n div 10) @ [hexdigit (n mod 10)])"

declare digits.simps [simp del]

fun join :: "string \<Rightarrow> string list \<Rightarrow> string" where
  "join sep [] = []"
| "join sep [x] = x"
| "join sep (x # y # ys) = x @ sep @ join sep (y # ys)"

definition escape_char :: "char \<Rightarrow> string" where
  "escape_char c =
     (if c = CHR 0x22 then [CHR 0x5C, CHR 0x22]
      else if c = CHR 0x5C then [CHR 0x5C, CHR 0x5C]
      else if c = CHR 0x08 then [CHR 0x5C, CHR ''b'']
      else if c = CHR 0x0C then [CHR 0x5C, CHR ''f'']
      else if c = CHR 0x0A then [CHR 0x5C, CHR ''n'']
      else if c = CHR 0x0D then [CHR 0x5C, CHR ''r'']
      else if c = CHR 0x09 then [CHR 0x5C, CHR ''t'']
      else if (of_char c :: nat) < 32
        then [CHR 0x5C, CHR ''u'', CHR ''0'', CHR ''0'',
              hexdigit (of_char c div 16), hexdigit (of_char c mod 16)]
      else [c])"

definition quote :: "string \<Rightarrow> string" where
  "quote s = CHR 0x22 # concat (map escape_char s) @ [CHR 0x22]"

text \<open>\<open>JSON.stringify(v)\<close> without indentation.\<close>

fun JSON_stringify :: "json \<Rightarrow> string" where
  "JSON_stringify JNull = ''null''"
| "JSON_stringify (JBool b) = (if b then ''true'' else ''false'')"
| "JSON_stringify (JNum n) = (if n < 0 then CHR ''-'' # digits (nat (- n)) else digits (nat n))"
| "JSON_stringify (JStr s) = quote s"
| "JSON_stringify (JArr xs) = ''['' @ join '','' (map JSON_stringify xs) @ '']''"
| "JSON_stringify (JObj kvs) =
     ''{'' @ join '','' (map (\<lambda>(k, v). quote k @ '':'' @ JSON_stringify v) kvs) @ ''}''"

text \<open>
  \<open>bfo(obj)\<close>: the UTF-8 byte length of the serialization. Strings are byte sequences
  here, so the byte length is the length of the list.
\<close>

definition bfo :: "json \<Rightarrow> nat" where
  "bfo ob = (let objStr = JSON_stringify ob in length objStr)"

subsection \<open>dequal\<close>

text \<open>
  Modelled from the spec: \<open>dequal\<close> is imported from the npm package of that name, whose
  text is not among the sources. The spec describes it as structural (deep) equality, not
  identity or shallow comparison: arrays are equal when they have the same length and equal
  elements position by position, plain objects when they have the same number of own keys
  and every key of the first is a key of the second with an equal value, and everything else
  when the two values are the same.
\<close>

fun dequal :: "json \<Rightarrow> json \<Rightarrow> bool" where
  "dequal (JArr xs) (JArr ys) = (length xs = length ys \<and> list_all2 dequal xs ys)"
| "dequal (JObj foo) (JObj bar) =
     ((\<forall>(k, v) \<in> set foo. case map_of bar k of None \<Rightarrow> False | Some w \<Rightarrow> dequal v w)
      \<and> length (map fst bar) = length (map fst foo))"
| "dequal foo bar = (foo = bar)"

subsection \<open>Plain objects\<close>

definition Object_keys :: "obj \<Rightarrow> string list" where
  "Object_keys ob = map fst ob"

text \<open>\<open>ob[key]\<close> among the own properties, \<open>None\<close> when the object does not own the key.\<close>

definition get_prop :: "obj \<Rightarrow> string \<Rightarrow> json option" where
  "get_prop ob key = map_of ob key"

text \<open>\<open>ob[key] = v\<close>: an existing key keeps its place, a new key goes last.\<close>

fun assign :: "obj \<Rightarrow> string \<Rightarrow> json \<Rightarrow> obj" where
  "assign [] key v = [(key, v)]"
| "assign ((k, w) # ob) key v =
     (if k = key then (k, v) # ob else (k, w) # assign ob key v)"

text \<open>\<open>{ ...target, ...src }\<close>, for a target that is a fresh copy.\<close>

definition spread :: "obj \<Rightarrow> obj \<Rightarrow> obj" where
  "spread target src = foldl (\<lambda>acc (k, v). assign acc k v) target src"

text \<open>\<open>delete ob[key]\<close>.\<close>

definition delete_key :: "obj \<Rightarrow> string \<Rightarrow> obj" where
  "delete_key ob key = filter (\<lambda>p. fst p \<noteq> key) ob"

section \<open>The eviction helper\<close>

text \<open>
  \<open>Array.prototype.sort(cmp)\<close> is a stable sort; \<open>a\<close> stays before \<open>b\<close> when
  \<open>cmp(a, b) \<le> 0\<close>. A comparator that throws ends the sort with its exception.
\<close>

fun insert_sorted ::
  "(string \<Rightarrow> string \<Rightarrow> error + int) \<Rightarrow> string \<Rightarrow> string list \<Rightarrow> error + string list" where
  "insert_sorted cmp x [] = Inr [x]"
| "insert_sorted cmp x (y # ys) =
     (case cmp x y of
        Inl e \<Rightarrow> Inl e
      | Inr c \<Rightarrow>
          if c \<le> 0 then Inr (x # y # ys)
          else (case insert_sorted cmp x ys of Inl e \<Rightarrow> Inl e | Inr zs \<Rightarrow> Inr (y # zs)))"

fun Array_sort ::
  "(string \<Rightarrow> string \<Rightarrow> error + int) \<Rightarrow> string list \<Rightarrow> error + string list" where
  "Array_sort cmp [] = Inr []"
| "Array_sort cmp (x # xs) =
     (case Array_sort cmp xs of Inl e \<Rightarrow> Inl e | Inr ys \<Rightarrow> insert_sorted cmp x ys)"

text \<open>
  \<open>bfo(obj[key])\<close>. For a key the object does not own, \<open>obj[key]\<close> is \<open>undefined\<close>,
  \<open>JSON.stringify\<close> returns \<open>undefined\<close> and \<open>Buffer.byteLength\<close> throws a TypeError.
\<close>

definition bfo_prop :: "obj \<Rightarrow> string \<Rightarrow> error + nat" where
  "bfo_prop ob key = (case get_prop ob key of None \<Rightarrow> Inl TypeError | Some v \<Rightarrow> Inr (bfo v))"

definition by_size_desc :: "obj \<Rightarrow> string \<Rightarrow> string \<Rightarrow> error + int" where
  "by_size_desc ob a b =
     (case bfo_prop ob b of
        Inl e \<Rightarrow> Inl e
      | Inr sb \<Rightarrow> (case bfo_prop ob a of Inl e \<Rightarrow> Inl e | Inr sa \<Rightarrow> Inr (int sb - int sa)))"

fun reduce_loop :: "obj \<Rightarrow> int \<Rightarrow> string list \<Rightarrow> obj \<Rightarrow> int \<Rightarrow> error + obj" where
  "reduce_loop ob mx [] reducedObj sz = Inr reducedObj"
| "reduce_loop ob mx (key # keys) reducedObj sz =
     (case get_prop ob key of
        None \<Rightarrow> Inl TypeError
      | Some v \<Rightarrow>
          (let keySize = int (bfo v) in
           if sz + keySize > mx then Inr reducedObj
           else reduce_loop ob mx keys (assign reducedObj key v) (sz + keySize)))"

definition reduceByts :: "obj \<Rightarrow> int \<Rightarrow> error + obj" where
  "reduceByts ob mx =
     (case Array_sort (by_size_desc ob) (Object_keys ob) of
        Inl e \<Rightarrow> Inl e
      | Inr keys \<Rightarrow> reduce_loop ob mx keys [] 0)"

text \<open>
  The same helper in the words of its description: the entries sorted largest value first,
  then accepted greedily while the running total stays within the budget, nothing after the
  first entry that does not fit.
\<close>

definition entry_size :: "string \<times> json \<Rightarrow> nat" where
  "entry_size e = length (JSON_stringify (snd e))"

definition largest_first :: "obj \<Rightarrow> obj" where
  "largest_first ob = sort_key (\<lambda>e. - int (entry_size e)) ob"

fun greedy_accept :: "int \<Rightarrow> int \<Rightarrow> obj \<Rightarrow> obj" where
  "greedy_accept mx tot [] = []"
| "greedy_accept mx tot (e # es) =
     (if tot + int (entry_size e) \<le> mx
      then e # greedy_accept mx (tot + int (entry_size e)) es
      else [])"

definition evict_spec :: "obj \<Rightarrow> int \<Rightarrow> obj" where
  "evict_spec ob mx = greedy_accept mx 0 (largest_first ob)"

section \<open>The store\<close>

text \<open>
  The world outside a store: the files by path, the directories, and three logs that make
  the effects observable (the calls of \<open>fs.writeFileSync\<close>, of \<open>EventEmitter.emit\<close> and of
  \<open>console.log\<close>, oldest first). The backing file holds the Brotli-compressed JSON text of
  a mapping; compression and serialization are lossless on JSON data, so a file is
  represented by the mapping it decodes to. Failures of the host's input and output
  (permissions, a corrupt file) are not modelled.
\<close>

record world =
  files :: "string \<Rightarrow> obj option"
  dirs :: "string list"
  written :: "(string \<times> obj) list"
  emitted :: "(string \<times> string list) list"
  console :: "string list"

text \<open>The three listeners the constructor registers.\<close>

datatype listener = Reducebyts | LogTempRemoved | LogFileRemoved

text \<open>
  The fields of the class, in the order of the source: \<open>_name\<close>, \<open>_store\<close> (the pending
  buffer), \<open>_storeDir\<close>, \<open>_filePath\<close>, \<open>__proto__\<close> (declared as a field of the class and
  used as the last persisted snapshot), \<open>events\<close> and \<open>_max\<close>.
\<close>

record Store =
  Store_name :: string
  Store_store :: obj
  Store_storeDir :: string
  Store_filePath :: string
  Store_proto :: obj
  Store_events :: "(string \<times> listener) list"
  Store_max :: int

text \<open>
  What a method body sees as \<open>this\<close>. An ordinary function registered as a listener is
  called by the emitter with the emitter itself as \<open>this\<close>.
\<close>

datatype receiver = ThisStore Store | ThisEmitter

definition hex_of_byte :: "char \<Rightarrow> string" where
  "hex_of_byte c = [hexdigit (of_char c div 16), hexdigit (of_char c mod 16)]"

definition setFilePath :: "string \<Rightarrow> string \<Rightarrow> string" where
  "setFilePath dir fn = (let hex = concat (map hex_of_byte fn) in dir @ ''/$'' @ hex @ ''.br'')"

definition Store_new :: "string option \<Rightarrow> Store" where
  "Store_new name =
     (let nm = (case name of None \<Rightarrow> ''lwe8_store'' | Some n \<Rightarrow> n);
          dir = ''.lwe8_store''
      in \<lparr> Store_name = nm,
           Store_store = [],
           Store_storeDir = dir,
           Store_filePath = setFilePath dir nm,
           Store_proto = [],
           Store_events =
             [(''bytesLimitOver'', Reducebyts),
              (''removedFromTempStorage'', LogTempRemoved),
              (''removedFromFileStorag'', LogFileRemoved)],
           Store_max = 250000 \<rparr>)"

definition firstWrite :: "Store \<Rightarrow> world \<Rightarrow> bool" where
  "firstWrite s w = (files w (Store_filePath s) \<noteq> None)"

definition checkDir :: "Store \<Rightarrow> world \<Rightarrow> world" where
  "checkDir s w =
     (if Store_storeDir s \<notin> set (dirs w) then w\<lparr>dirs := dirs w @ [Store_storeDir s]\<rparr> else w)"

definition getFormFile :: "Store \<Rightarrow> world \<Rightarrow> obj" where
  "getFormFile s w = (case files w (Store_filePath s) of Some d \<Rightarrow> d | None \<Rightarrow> [])"

definition getNewStore :: "Store \<Rightarrow> world \<Rightarrow> obj" where
  "getNewStore s w =
     (let fstore = getFormFile s w;
          ss = (if length (Object_keys (Store_store s)) > 0 then spread [] (Store_store s) else []);
          fs = (if length (Object_keys fstore) > 0 then spread [] fstore else [])
      in spread (spread [] fs) ss)"

text \<open>\<open>_write(obj)\<close>: the file is replaced and the pending buffer is emptied.\<close>

definition p_write :: "Store \<Rightarrow> world \<Rightarrow> obj \<Rightarrow> Store \<times> world" where
  "p_write s w ob =
     (s\<lparr>Store_store := []\<rparr>,
      w\<lparr>files := (files w)(Store_filePath s \<mapsto> ob),
        written := written w @ [(Store_filePath s, ob)]\<rparr>)"

text \<open>
  The method \<open>reducebyts\<close>. On a store it returns the reduced mapping. On any other
  receiver \<open>this.getNewStore\<close> is not a function and the call throws a TypeError.
\<close>

fun reducebyts :: "receiver \<Rightarrow> world \<Rightarrow> error + obj" where
  "reducebyts (ThisStore s) w = (let ns = getNewStore s w in reduceByts ns (Store_max s))"
| "reducebyts ThisEmitter w = Inl TypeError"

definition console_log :: "string \<Rightarrow> world \<Rightarrow> world" where
  "console_log msg w = w\<lparr>console := console w @ [msg]\<rparr>"

definition first_arg :: "string list \<Rightarrow> string" where
  "first_arg args = (case args of [] \<Rightarrow> ''undefined'' | key # rest \<Rightarrow> key)"

text \<open>
  Calling a listener. The constructor registers \<open>this.reducebyts\<close> as it is, not bound to
  the store, so the emitter calls it with itself as \<open>this\<close>; the two logging listeners are
  arrow functions.
\<close>

fun call_listener :: "listener \<Rightarrow> string list \<Rightarrow> world \<Rightarrow> error option \<times> world" where
  "call_listener Reducebyts args w =
     (case reducebyts ThisEmitter w of Inl e \<Rightarrow> (Some e, w) | Inr r \<Rightarrow> (None, w))"
| "call_listener LogTempRemoved args w =
     (None, console_log (''The value of '' @ first_arg args @ '' removed from temp storage.'') w)"
| "call_listener LogFileRemoved args w =
     (None, console_log (''The value of '' @ first_arg args @ '' removed from file storage.'') w)"

fun run_listeners :: "listener list \<Rightarrow> string list \<Rightarrow> world \<Rightarrow> error option \<times> world" where
  "run_listeners [] args w = (None, w)"
| "run_listeners (l # ls) args w =
     (case call_listener l args w of
        (Some e, w') \<Rightarrow> (Some e, w')
      | (None, w') \<Rightarrow> run_listeners ls args w')"

text \<open>
  \<open>events.emit(name, ...args)\<close>: the listeners registered under the name run in order, and
  an exception of a listener leaves \<open>emit\<close>.
\<close>

definition emit :: "Store \<Rightarrow> string \<Rightarrow> string list \<Rightarrow> world \<Rightarrow> error option \<times> world" where
  "emit s name args w =
     run_listeners (map snd (filter (\<lambda>r. fst r = name) (Store_events s))) args
       (w\<lparr>emitted := emitted w @ [(name, args)]\<rparr>)"

definition emitEvent :: "Store \<Rightarrow> world \<Rightarrow> error option \<times> world" where
  "emitEvent s w =
     (let ns = getNewStore s w;
          obyts = int (bfo (JObj ns))
      in if obyts > Store_max s then emit s ''bytesLimitOver'' [] w else (None, w))"

text \<open>The two overloads of \<open>set\<close>.\<close>

definition set_obj :: "Store \<Rightarrow> world \<Rightarrow> obj \<Rightarrow> Store" where
  "set_obj s w arg =
     (let ns0 = getNewStore s w;
          ns = spread (spread [] ns0) arg
      in s\<lparr>Store_store := ns\<rparr>)"

definition set_key :: "Store \<Rightarrow> world \<Rightarrow> string \<Rightarrow> json \<Rightarrow> Store" where
  "set_key s w key v =
     (let ns0 = getNewStore s w;
          ns1 = assign ns0 key v;
          ns = spread [] ns1
      in s\<lparr>Store_store := ns\<rparr>)"

text \<open>
  What a property read can give: \<open>undefined\<close>, a value of the mapping, or a member that
  the object inherits from \<open>Object.prototype\<close> (a built-in function, or the prototype itself
  for \<open>__proto__\<close>), named by its key.
\<close>

datatype js_value = Undefined | Value json | Inherited string

text \<open>The property names of \<open>Object.prototype\<close> on the host.\<close>

definition Object_prototype_names :: "string list" where
  "Object_prototype_names =
     [''constructor'', ''__defineGetter__'', ''__defineSetter__'', ''hasOwnProperty'',
      ''__lookupGetter__'', ''__lookupSetter__'', ''isPrototypeOf'', ''propertyIsEnumerable'',
      ''toString'', ''valueOf'', ''__proto__'', ''toLocaleString'']"

text \<open>
  \<open>ob[key]\<close> on an object literal, for any key: the own property first, then the
  prototype of every object literal, \<open>Object.prototype\<close>.
\<close>

definition read_prop :: "obj \<Rightarrow> string \<Rightarrow> js_value" where
  "read_prop ob key =
     (case get_prop ob key of
        Some v \<Rightarrow> Value v
      | None \<Rightarrow> if key \<in> set Object_prototype_names then Inherited key else Undefined)"

text \<open>\<open>get(key)\<close>: \<open>_ns[key] ?? undefined\<close>; \<open>null\<close> and \<open>undefined\<close> both give \<open>undefined\<close>.\<close>

definition Store_get :: "Store \<Rightarrow> world \<Rightarrow> string \<Rightarrow> js_value" where
  "Store_get s w key =
     (let ns = getNewStore s w;
          r = read_prop ns key
      in if r = Value JNull \<or> r = Undefined then Undefined else r)"

fun remove_keys ::
  "string list \<Rightarrow> Store \<Rightarrow> obj \<Rightarrow> world \<Rightarrow> error option \<times> Store \<times> obj \<times> world" where
  "remove_keys [] s fs w = (None, s, fs, w)"
| "remove_keys (key # keys) s fs w =
     (let (e1, s1, w1) =
            (if key \<in> set (Object_keys (Store_store s))
             then (let s' = s\<lparr>Store_store := delete_key (Store_store s) key\<rparr>;
                       (e, w') = emit s' ''removedFromTempStorage'' [key] w
                   in (e, s', w'))
             else (None, s, w))
      in case e1 of
           Some e \<Rightarrow> (Some e, s1, fs, w1)
         | None \<Rightarrow>
             (let (e2, fs2, w2) =
                    (if key \<in> set (Object_keys fs)
                     then (let fs' = delete_key fs key;
                               (e, w') = emit s1 ''removedFromFileStorage'' [key] w1
                           in (e, fs', w'))
                     else (None, fs, w1))
              in case e2 of
                   Some e \<Rightarrow> (Some e, s1, fs2, w2)
                 | None \<Rightarrow> remove_keys keys s1 fs2 w2))"

definition Store_remove :: "Store \<Rightarrow> world \<Rightarrow> string list \<Rightarrow> error option \<times> Store \<times> world" where
  "Store_remove s w args =
     (let fs0 = getFormFile s w;
          (e, s1, fs, w1) = remove_keys args s fs0 w
      in case e of
           Some err \<Rightarrow> (Some err, s1, w1)
         | None \<Rightarrow>
             if \<not> dequal (JObj fs) (JObj (Store_proto s1))
             then (let (s2, w2) = p_write s1 w1 fs in (None, s2\<lparr>Store_proto := fs\<rparr>, w2))
             else (None, s1, w1))"

definition Store_write :: "Store \<Rightarrow> world \<Rightarrow> error option \<times> Store \<times> world" where
  "Store_write s w =
     (if \<not> firstWrite s w then
        (let ns = getNewStore s w;
             w1 = checkDir s w;
             s1 = s\<lparr>Store_proto := ns\<rparr>;
             (s2, w2) = p_write s1 w1 ns;
             (e, w3) = emitEvent s2 w2
         in (e, s2, w3))
      else
        (let ns = getNewStore s w
         in if firstWrite s w \<and> \<not> dequal (JObj ns) (JObj (Store_proto s))
            then (let (s1, w1) = p_write s w ns;
                      s2 = s1\<lparr>Store_proto := ns\<rparr>;
                      (e, w2) = emitEvent s2 w1
                  in (e, s2, w2))
            else (None, s, w)))"

text \<open>A file system with no files, and the state a store and a file system are in
  when every mapping they hold is well formed.\<close>

definition empty_world :: world where
  "empty_world = \<lparr> files = (\<lambda>p. None), dirs = [], written = [], emitted = [], console = [] \<rparr>"

definition wf_state :: "Store \<Rightarrow> world \<Rightarrow> bool" where
  "wf_state s w = (wf_obj (Store_store s) \<and> wf_obj (getFormFile s w))"

text \<open>
  A call of \<open>write\<close> persists when it takes one of its two writing branches: there is
  no backing file yet, or the merged view differs from the snapshot.
\<close>

definition persists :: "Store \<Rightarrow> world \<Rightarrow> bool" where
  "persists s w = (\<not> firstWrite s w \<or> \<not> dequal (JObj (getNewStore s w)) (JObj (Store_proto s)))"

text \<open>A store with a pending change over a backing file that holds \<open>{a: 1}\<close>.\<close>

definition demo_store :: Store where
  "demo_store = (Store_new None)\<lparr>Store_store := [(''a'', JNum 1), (''b'', JNum 2)], Store_proto := [(''a'', JNum 1)]\<rparr>"

definition demo_world :: world where
  "demo_world = empty_world\<lparr>files := (\<lambda>p. None)(Store_filePath (Store_new None) \<mapsto> [(''a'', JNum 1)]),
      dirs := [''.lwe8_store'']\<rparr>"

text \<open>A string value of \<open>n\<close> characters: \<open>n + 2\<close> bytes when serialized.\<close>

definition blob :: "nat \<Rightarrow> json" where
  "blob n = JStr (replicate n CHR ''x'')"

text \<open>A new store with one pending entry of 250002 bytes, more than the budget.\<close>

definition big_store :: Store where
  "big_store = set_key (Store_new None) empty_world ''k'' (blob 250000)"

text \<open>A file system whose backing file of the default store is over the budget.\<close>

definition heavy_world :: world where
  "heavy_world =
     empty_world\<lparr>files := (\<lambda>p. None)(Store_filePath (Store_new None) \<mapsto>
                               [(''a'', blob 250000), (''b'', JNum 1)]),
                 dirs := [''.lwe8_store'']\<rparr>"

text \<open>A store after \<open>set({a: 1, b: 2})\<close>, \<open>write()\<close> and \<open>set({c: 3})\<close>, with its file system.\<close>

definition pending_case :: "Store \<times> world" where
  "pending_case =
     (let s1 = set_obj (Store_new None) empty_world [(''a'', JNum 1), (''b'', JNum 2)];
          (e, s2, w2) = Store_write s1 empty_world;
          s3 = set_obj s2 w2 [(''c'', JNum 3)]
      in (s3, w2))"

text \<open>A mapping with values of 5000 bytes, 1 byte and 200000 bytes.\<close>

definition sample_obj :: obj where
  "sample_obj = [(''a'', blob 4998), (''b'', JNum 7), (''c'', blob 199998)]"

text \<open>A new store after \<open>set({a: 1})\<close> and \<open>write()\<close>, with its file system.\<close>

definition settled_case :: "Store \<times> world" where
  "settled_case =
     (let s1 = set_obj (Store_new None) empty_world [(''a'', JNum 1)];
          (e, s2, w2) = Store_write s1 empty_world
      in (s2, w2))"

section \<open>Properties of objects and of structural equality\<close>

lemma dequal_refl: "wf_json v \<Longrightarrow> dequal v v"
proof (induction v)
  case (JArr xs)
  then show ?case by (simp add: list.rel_refl_strong)
next
  case (JObj kvs)
  have "case map_of kvs k of None \<Rightarrow> False | Some w \<Rightarrow> dequal v w" if "(k, v) \<in> set kvs" for k v
  proof -
    from JObj.prems have "distinct (map fst kvs)" by simp
    with that have "map_of kvs k = Some v" by simp
    moreover from JObj.prems that have "wf_json v" by auto
    with JObj.IH that have "dequal v v" by fastforce
    ultimately show ?thesis by simp
  qed
  then show ?case by auto
qed simp_all

lemma assign_fresh: "key \<notin> fst ` set ob \<Longrightarrow> assign ob key v = ob @ [(key, v)]"
  by (induction ob) auto

lemma keys_assign: "set (map fst (assign ob key v)) = insert key (set (map fst ob))"
  by (induction ob) (force split: if_splits)+

lemma distinct_assign: "distinct (map fst ob) \<Longrightarrow> distinct (map fst (assign ob key v))"
proof (induction ob)
  case Nil
  then show ?case by simp
next
  case (Cons p ob)
  obtain k w where p: "p = (k, w)" by (cases p)
  with Cons show ?case
    using keys_assign [of ob key v] by auto
qed

lemma set_assign: "set (assign ob key v) \<subseteq> insert (key, v) (set ob)"
  by (induction ob) (auto split: if_splits)

lemma map_of_assign: "map_of (assign ob key v) = (map_of ob)(key \<mapsto> v)"
  by (induction ob) (auto simp: fun_eq_iff)

lemma distinct_spread: "distinct (map fst acc) \<Longrightarrow> distinct (map fst (spread acc src))"
  unfolding spread_def
  by (induction src arbitrary: acc) (auto simp: distinct_assign)

lemma set_spread: "set (spread acc src) \<subseteq> set acc \<union> set src"
  unfolding spread_def
proof (induction src arbitrary: acc)
  case Nil
  then show ?case by simp
next
  case (Cons p src)
  obtain k v where p: "p = (k, v)" by (cases p)
  have "set (foldl (\<lambda>acc (k, v). assign acc k v) (assign acc k v) src)
          \<subseteq> set (assign acc k v) \<union> set src"
    by (rule Cons.IH)
  also have "\<dots> \<subseteq> insert (k, v) (set acc) \<union> set src"
    using set_assign [of acc k v] by auto
  finally show ?case using p by auto
qed

lemma spread_fresh: "distinct (map fst (acc @ src)) \<Longrightarrow> spread acc src = acc @ src"
  unfolding spread_def
proof (induction src arbitrary: acc)
  case Nil
  then show ?case by simp
next
  case (Cons p src)
  obtain k v where p: "p = (k, v)" by (cases p)
  from Cons.prems p have fresh: "k \<notin> fst ` set acc" by auto
  from Cons.prems p have "distinct (map fst ((acc @ [(k, v)]) @ src))" by auto
  then have "foldl (\<lambda>acc (k, v). assign acc k v) (acc @ [(k, v)]) src = (acc @ [(k, v)]) @ src"
    by (rule Cons.IH)
  with fresh p show ?case by (simp add: assign_fresh)
qed

lemma spread_Nil_id: "distinct (map fst ob) \<Longrightarrow> spread [] ob = ob"
  using spread_fresh [of "[]" ob] by simp

lemma copy_id: "(if length (Object_keys ob) > 0 then ob else []) = ob"
  by (cases ob) (simp_all add: Object_keys_def)

lemma wf_obj_spread: "wf_obj a \<Longrightarrow> \<forall>p \<in> set b. wf_json (snd p) \<Longrightarrow> wf_obj (spread a b)"
  using set_spread [of a b] distinct_spread [of a b]
  unfolding wf_obj_def by auto

lemma wf_obj_Nil: "wf_obj []"
  by (simp add: wf_obj_def)

lemma wf_obj_vals: "wf_obj a \<Longrightarrow> \<forall>p \<in> set a. wf_json (snd p)"
  by (simp add: wf_obj_def)

lemma wf_obj_distinct: "wf_obj a \<Longrightarrow> distinct (map fst a)"
  by (simp add: wf_obj_def)

lemma getNewStore_eq:
  assumes "wf_state s w"
  shows "getNewStore s w = spread (getFormFile s w) (Store_store s)"
proof -
  from assms have d1: "distinct (map fst (Store_store s))" and d2: "distinct (map fst (getFormFile s w))"
    by (simp_all add: wf_state_def wf_obj_distinct)
  show ?thesis
    unfolding getNewStore_def Let_def spread_Nil_id [OF d1] spread_Nil_id [OF d2] copy_id ..
qed

lemma wf_getNewStore:
  assumes "wf_state s w"
  shows "wf_obj (getNewStore s w)"
proof -
  from assms have "wf_obj (getFormFile s w)" and "\<forall>p \<in> set (Store_store s). wf_json (snd p)"
    by (simp_all add: wf_state_def wf_obj_def)
  then have "wf_obj (spread (getFormFile s w) (Store_store s))"
    by (rule wf_obj_spread)
  then show ?thesis by (simp add: getNewStore_eq [OF assms])
qed

section \<open>Frame properties of the notifications and of \<open>write\<close>\<close>

lemma call_listener_frame:
  "call_listener l args w = (e, w') \<Longrightarrow>
     files w' = files w \<and> written w' = written w \<and> dirs w' = dirs w \<and> emitted w' = emitted w"
  by (cases l) (auto simp: console_log_def split: sum.splits)

lemma run_listeners_frame:
  "run_listeners ls args w = (e, w') \<Longrightarrow>
     files w' = files w \<and> written w' = written w \<and> dirs w' = dirs w \<and> emitted w' = emitted w"
proof (induction ls arbitrary: w)
  case Nil
  then show ?case by simp
next
  case (Cons l ls)
  obtain e1 w1 where c: "call_listener l args w = (e1, w1)" by (cases "call_listener l args w")
  note f = call_listener_frame [OF c]
  show ?case
  proof (cases e1)
    case None
    with Cons.prems c have "run_listeners ls args w1 = (e, w')" by simp
    from Cons.IH [OF this] f show ?thesis by simp
  next
    case (Some err)
    with Cons.prems c have "w' = w1" by simp
    with f show ?thesis by simp
  qed
qed

lemma emit_frame:
  "emit s name args w = (e, w') \<Longrightarrow>
     files w' = files w \<and> written w' = written w \<and> dirs w' = dirs w
     \<and> emitted w' = emitted w @ [(name, args)]"
  unfolding emit_def by (drule run_listeners_frame) simp

lemma getNewStore_files:
  "files w' = files w \<Longrightarrow> Store_filePath s' = Store_filePath s \<Longrightarrow> Store_store s' = Store_store s
     \<Longrightarrow> getNewStore s' w' = getNewStore s w"
  by (simp add: getNewStore_def getFormFile_def)

lemma emitEvent_frame:
  "emitEvent s w = (e, w') \<Longrightarrow>
     files w' = files w \<and> written w' = written w \<and> dirs w' = dirs w
     \<and> emitted w' =
         emitted w @ (if int (bfo (JObj (getNewStore s w))) > Store_max s
                      then [(''bytesLimitOver'', [])] else [])"
  unfolding emitEvent_def Let_def
  by (auto dest: emit_frame split: if_splits)

lemma distinct_getNewStore: "distinct (map fst (getNewStore s w))"
  by (simp add: getNewStore_def Let_def distinct_spread)

text \<open>The merged view of a store whose buffer is empty and whose file holds a merged view.\<close>

lemma getNewStore_after_write:
  assumes "Store_store s' = []" and "files w' (Store_filePath s') = Some ob" and "distinct (map fst ob)"
  shows "getNewStore s' w' = ob"
proof -
  have e: "spread acc [] = acc" for acc by (simp add: spread_def)
  from assms show ?thesis
    by (simp add: getNewStore_def getFormFile_def Let_def spread_Nil_id copy_id Object_keys_def e)
qed

lemma write_persists:
  assumes p: "\<not> firstWrite s w \<or> \<not> dequal (JObj (getNewStore s w)) (JObj (Store_proto s))"
    and r: "Store_write s w = (e1, s1, w1)"
  shows "s1 = s\<lparr>Store_store := [], Store_proto := getNewStore s w\<rparr>"
    and "files w1 = (files w)(Store_filePath s \<mapsto> getNewStore s w)"
    and "written w1 = written w @ [(Store_filePath s, getNewStore s w)]"
    and "emitted w1 =
           emitted w @ (if int (bfo (JObj (getNewStore s w))) > Store_max s
                        then [(''bytesLimitOver'', [])] else [])"
proof -
  let ?ns = "getNewStore s w"
  let ?s2 = "s\<lparr>Store_store := [], Store_proto := ?ns\<rparr>"
  let ?wa = "if firstWrite s w then w else checkDir s w"
  let ?w2 = "?wa\<lparr>files := (files ?wa)(Store_filePath s \<mapsto> ?ns),
                 written := written ?wa @ [(Store_filePath s, ?ns)]\<rparr>"
  have fr: "files ?wa = files w" "written ?wa = written w" "emitted ?wa = emitted w"
    by (simp_all add: checkDir_def)
  have sw: "s\<lparr>Store_proto := ?ns, Store_store := []\<rparr> = ?s2" by simp
  from p r have ev: "emitEvent ?s2 ?w2 = (e1, w1)" and s1: "s1 = ?s2"
    by (auto simp: Store_write_def Let_def p_write_def sw split: prod.splits if_splits)
  have "getNewStore ?s2 ?w2 = ?ns"
    by (rule getNewStore_after_write) (simp_all add: distinct_getNewStore)
  with emitEvent_frame [OF ev] fr
  show "files w1 = (files w)(Store_filePath s \<mapsto> ?ns)"
    and "written w1 = written w @ [(Store_filePath s, ?ns)]"
    and "emitted w1 =
           emitted w @ (if int (bfo (JObj ?ns)) > Store_max s then [(''bytesLimitOver'', [])] else [])"
    by simp_all
  from s1 show "s1 = ?s2" .
qed

lemma write_noop:
  assumes "firstWrite s w" and "dequal (JObj (getNewStore s w)) (JObj (Store_proto s))"
  shows "Store_write s w = (None, s, w)"
  using assms by (simp add: Store_write_def)

lemma write_twice:
  assumes wf: "wf_state s w" and r: "Store_write s w = (e1, s1, w1)"
  shows "Store_write s1 w1 = (None, s1, w1)"
proof (cases "\<not> firstWrite s w \<or> \<not> dequal (JObj (getNewStore s w)) (JObj (Store_proto s))")
  case True
  note w = write_persists [OF True r]
  let ?ns = "getNewStore s w"
  have first: "firstWrite s1 w1" using w by (simp add: firstWrite_def)
  have "getNewStore s1 w1 = ?ns"
    by (rule getNewStore_after_write) (use w in \<open>simp_all add: distinct_getNewStore\<close>)
  moreover have "Store_proto s1 = ?ns" using w by simp
  moreover have "dequal (JObj ?ns) (JObj ?ns)"
    using wf_getNewStore [OF wf] by (intro dequal_refl) (simp add: wf_obj_def)
  ultimately show ?thesis using first by (intro write_noop) simp_all
next
  case False
  then have "Store_write s w = (None, s, w)" by (intro write_noop) simp_all
  with r show ?thesis by simp
qed

lemma length_stringify_blob [simp]: "length (JSON_stringify (blob n)) = n + 2"
proof -
  have "concat (map escape_char (replicate n CHR ''x'')) = concat (replicate n ''x'')"
    by (simp add: escape_char_def)
  moreover have "length (concat (replicate n ''x'')) = n"
    by (induction n) simp_all
  ultimately show ?thesis by (simp add: blob_def quote_def)
qed

lemma emitEvent_within:
  "int (bfo (JObj (getNewStore s w))) \<le> Store_max s \<Longrightarrow> emitEvent s w = (None, w)"
  by (simp add: emitEvent_def Let_def)

lemma emit_bytesLimitOver:
  "Store_events s = Store_events (Store_new name) \<Longrightarrow>
   emit s ''bytesLimitOver'' [] w = (Some TypeError, w\<lparr>emitted := emitted w @ [(''bytesLimitOver'', [])]\<rparr>)"
  by (simp add: emit_def Store_new_def Let_def)

lemma emitEvent_over:
  "Store_events s = Store_events (Store_new name) \<Longrightarrow> int (bfo (JObj (getNewStore s w))) > Store_max s \<Longrightarrow>
   emitEvent s w = (Some TypeError, w\<lparr>emitted := emitted w @ [(''bytesLimitOver'', [])]\<rparr>)"
  by (simp add: emitEvent_def Let_def emit_bytesLimitOver)

lemma write_steps:
  assumes p: "persists s w" and r: "Store_write s w = (e1, s1, w1)"
  shows "\<exists>w'. emitEvent s1 w' = (e1, w1) \<and> emitted w' = emitted w
           \<and> getNewStore s1 w' = getNewStore s w \<and> Store_max s1 = Store_max s
           \<and> Store_events s1 = Store_events s"
proof -
  let ?ns = "getNewStore s w"
  let ?s2 = "s\<lparr>Store_store := [], Store_proto := ?ns\<rparr>"
  let ?wa = "if firstWrite s w then w else checkDir s w"
  let ?w2 = "?wa\<lparr>files := (files ?wa)(Store_filePath s \<mapsto> ?ns),
                 written := written ?wa @ [(Store_filePath s, ?ns)]\<rparr>"
  have sw: "s\<lparr>Store_proto := ?ns, Store_store := []\<rparr> = ?s2" by simp
  from p r have ev: "emitEvent ?s2 ?w2 = (e1, w1)" and s1: "s1 = ?s2"
    by (auto simp: persists_def Store_write_def Let_def p_write_def sw split: prod.splits if_splits)
  have "getNewStore ?s2 ?w2 = ?ns"
    by (rule getNewStore_after_write) (simp_all add: distinct_getNewStore)
  moreover have "emitted ?w2 = emitted w" by (simp add: checkDir_def)
  ultimately show ?thesis using ev s1 by (intro exI [of _ ?w2]) simp
qed

lemma write_error:
  assumes p: "persists s w" and r: "Store_write s w = (e1, s1, w1)"
    and ev: "Store_events s = Store_events (Store_new name)"
  shows "e1 = (if int (bfo (JObj (getNewStore s w))) > Store_max s then Some TypeError else None)"
proof -
  from write_steps [OF p r] obtain w' where
    w': "emitEvent s1 w' = (e1, w1)" "getNewStore s1 w' = getNewStore s w"
        "Store_max s1 = Store_max s" "Store_events s1 = Store_events s"
    by blast
  show ?thesis
  proof (cases "int (bfo (JObj (getNewStore s w))) > Store_max s")
    case True
    with w' ev have "emitEvent s1 w' = (Some TypeError, w'\<lparr>emitted := emitted w' @ [(''bytesLimitOver'', [])]\<rparr>)"
      by (intro emitEvent_over [of _ name]) simp_all
    with w' True show ?thesis by simp
  next
    case False
    with w' have "emitEvent s1 w' = (None, w')" by (intro emitEvent_within) simp
    with w' False show ?thesis by simp
  qed
qed

lemma remove_keys_frame:
  "remove_keys args s fs w = (e, s1, fs1, w1) \<Longrightarrow>
     files w1 = files w \<and> written w1 = written w \<and> dirs w1 = dirs w
     \<and> filter (\<lambda>ev. fst ev = ''bytesLimitOver'') (emitted w1)
         = filter (\<lambda>ev. fst ev = ''bytesLimitOver'') (emitted w)
     \<and> Store_filePath s1 = Store_filePath s \<and> Store_proto s1 = Store_proto s
     \<and> Store_max s1 = Store_max s \<and> Store_events s1 = Store_events s"
proof (induction args arbitrary: s fs w)
  case Nil
  then show ?case by simp
next
  case (Cons key keys)
  let ?sa = "if key \<in> set (Object_keys (Store_store s))
             then s\<lparr>Store_store := delete_key (Store_store s) key\<rparr> else s"
  obtain ea wa where a:
    "(if key \<in> set (Object_keys (Store_store s))
      then emit ?sa ''removedFromTempStorage'' [key] w else (None, w)) = (ea, wa)"
    by fastforce
  have fa: "files wa = files w \<and> written wa = written w \<and> dirs wa = dirs w
     \<and> filter (\<lambda>ev. fst ev = ''bytesLimitOver'') (emitted wa)
         = filter (\<lambda>ev. fst ev = ''bytesLimitOver'') (emitted w)"
    using a by (auto dest!: emit_frame split: if_splits)
  let ?fb = "if key \<in> set (Object_keys fs) then delete_key fs key else fs"
  obtain eb wb where b:
    "(if key \<in> set (Object_keys fs)
      then emit ?sa ''removedFromFileStorage'' [key] wa else (None, wa)) = (eb, wb)"
    by fastforce
  have fb: "files wb = files wa \<and> written wb = written wa \<and> dirs wb = dirs wa
     \<and> filter (\<lambda>ev. fst ev = ''bytesLimitOver'') (emitted wb)
         = filter (\<lambda>ev. fst ev = ''bytesLimitOver'') (emitted wa)"
    using b by (auto dest!: emit_frame split: if_splits)
  have step: "remove_keys (key # keys) s fs w =
      (case ea of Some err \<Rightarrow> (Some err, ?sa, fs, wa)
       | None \<Rightarrow> (case eb of Some err \<Rightarrow> (Some err, ?sa, ?fb, wb)
                  | None \<Rightarrow> remove_keys keys ?sa ?fb wb))"
    using a b by (auto simp: Let_def split: if_splits option.splits prod.splits)
  show ?case
  proof (cases ea)
    case (Some err)
    with step Cons.prems fa show ?thesis by auto
  next
    case None
    note ea = this
    show ?thesis
    proof (cases eb)
      case (Some err)
      with step ea Cons.prems fa fb show ?thesis by auto
    next
      case None
      with step ea Cons.prems have "remove_keys keys ?sa ?fb wb = (e, s1, fs1, w1)" by simp
      from Cons.IH [OF this] fa fb show ?thesis by simp
    qed
  qed
qed

lemma remove_frame:
  assumes "Store_remove s w args = (e, s1, w1)"
  shows "filter (\<lambda>ev. fst ev = ''bytesLimitOver'') (emitted w1)
         = filter (\<lambda>ev. fst ev = ''bytesLimitOver'') (emitted w)"
proof -
  obtain e' s' fs' w' where rk: "remove_keys args s (getFormFile s w) w = (e', s', fs', w')"
    by (cases "remove_keys args s (getFormFile s w) w") auto
  note f = remove_keys_frame [OF rk]
  from assms rk have "emitted w1 = emitted w'"
    by (auto simp: Store_remove_def Let_def p_write_def split: option.splits if_splits simp del: dequal.simps)
  with f show ?thesis by simp
qed

lemma demo_store_simps:
  "Store_max demo_store = 250000"
  "Store_events demo_store = Store_events (Store_new None)"
  "Store_filePath demo_store = Store_filePath (Store_new None)"
  "Store_store demo_store = [(''a'', JNum 1), (''b'', JNum 2)]"
  "Store_proto demo_store = [(''a'', JNum 1)]"
  by (simp_all add: demo_store_def Store_new_def Let_def)

lemma demo_merged: "getNewStore demo_store demo_world = [(''a'', JNum 1), (''b'', JNum 2)]"
  by (simp add: getNewStore_def getFormFile_def demo_store_simps demo_world_def
      spread_def Object_keys_def)

lemma persists_demo: "persists demo_store demo_world"
  by (simp add: persists_def getNewStore_def getFormFile_def demo_store_def demo_world_def
      Store_new_def spread_def Object_keys_def)

lemma big_store_simps:
  "Store_store big_store = [(''k'', blob 250000)]"
  "Store_proto big_store = []"
  "Store_max big_store = 250000"
  "Store_events big_store = Store_events (Store_new None)"
  "Store_filePath big_store = Store_filePath (Store_new None)"
  by (simp_all add: big_store_def set_key_def getNewStore_def getFormFile_def empty_world_def
      Store_new_def Let_def spread_def Object_keys_def)

lemma big_store_merged: "getNewStore big_store empty_world = [(''k'', blob 250000)]"
  by (simp add: getNewStore_def getFormFile_def big_store_simps empty_world_def spread_def Object_keys_def)

lemma big_store_over: "int (bfo (JObj (getNewStore big_store empty_world))) > Store_max big_store"
  by (simp add: big_store_merged big_store_simps bfo_def)

lemma big_store_persists: "persists big_store empty_world"
  by (simp add: persists_def firstWrite_def empty_world_def)

lemma heavy_remove:
  "Store_remove (Store_new None) heavy_world [''b''] =
     (None,
      (Store_new None)\<lparr>Store_store := [], Store_proto := [(''a'', blob 250000)]\<rparr>,
      heavy_world\<lparr>files := (files heavy_world)(Store_filePath (Store_new None) \<mapsto> [(''a'', blob 250000)]),
                  written := [(Store_filePath (Store_new None), [(''a'', blob 250000)])],
                  emitted := [(''removedFromFileStorage'', [''b''])]\<rparr>)"
  by (simp add: Store_remove_def getFormFile_def heavy_world_def empty_world_def Store_new_def
      Let_def Object_keys_def delete_key_def emit_def p_write_def)

lemma pending_case_eq:
  "pending_case =
     ((Store_new None)\<lparr>Store_store := [(''a'', JNum 1), (''b'', JNum 2), (''c'', JNum 3)],
                       Store_proto := [(''a'', JNum 1), (''b'', JNum 2)]\<rparr>,
      empty_world\<lparr>files := (\<lambda>p. None)(Store_filePath (Store_new None) \<mapsto> [(''a'', JNum 1), (''b'', JNum 2)]),
                  dirs := [''.lwe8_store''],
                  written := [(Store_filePath (Store_new None), [(''a'', JNum 1), (''b'', JNum 2)])]\<rparr>)"
  by (simp add: pending_case_def set_obj_def Store_write_def getNewStore_def getFormFile_def
      firstWrite_def checkDir_def p_write_def emitEvent_def bfo_def quote_def escape_char_def
      digits.simps empty_world_def Store_new_def Let_def spread_def Object_keys_def)

lemma by_size_desc_owned:
  assumes "map_of ob (fst a) = Some (snd a)" and "map_of ob (fst b) = Some (snd b)"
  shows "by_size_desc ob (fst a) (fst b) = Inr (int (entry_size b) - int (entry_size a))"
  using assms by (simp add: by_size_desc_def bfo_prop_def get_prop_def bfo_def entry_size_def)

lemma insert_sorted_owned:
  assumes "map_of ob (fst e) = Some (snd e)" and "\<forall>y \<in> set ys. map_of ob (fst y) = Some (snd y)"
  shows "insert_sorted (by_size_desc ob) (fst e) (map fst ys)
           = Inr (map fst (insort_key (\<lambda>e. - int (entry_size e)) e ys))"
  using assms(2)
proof (induction ys)
  case Nil
  then show ?case by simp
next
  case (Cons y ys)
  from Cons.prems have y: "map_of ob (fst y) = Some (snd y)" by simp
  from Cons.prems have "\<forall>y \<in> set ys. map_of ob (fst y) = Some (snd y)" by simp
  with Cons.IH have "insert_sorted (by_size_desc ob) (fst e) (map fst ys)
           = Inr (map fst (insort_key (\<lambda>e. - int (entry_size e)) e ys))" by simp
  then show ?case by (simp add: by_size_desc_owned [OF assms(1) y])
qed

lemma Array_sort_owned:
  assumes "\<forall>e \<in> set es. map_of ob (fst e) = Some (snd e)"
  shows "Array_sort (by_size_desc ob) (map fst es)
           = Inr (map fst (sort_key (\<lambda>e. - int (entry_size e)) es))"
  using assms
proof (induction es)
  case Nil
  then show ?case by simp
next
  case (Cons e es)
  let ?g = "\<lambda>e. - int (entry_size e)"
  from Cons have sorted_tail: "Array_sort (by_size_desc ob) (map fst es) = Inr (map fst (sort_key ?g es))"
    by simp
  from Cons.prems have "map_of ob (fst e) = Some (snd e)"
    and "\<forall>y \<in> set (sort_key ?g es). map_of ob (fst y) = Some (snd y)"
    by simp_all
  then have "insert_sorted (by_size_desc ob) (fst e) (map fst (sort_key ?g es))
               = Inr (map fst (insort_key ?g e (sort_key ?g es)))"
    by (rule insert_sorted_owned)
  with sorted_tail show ?case by (simp add: sort_key_simps)
qed

lemma reduce_loop_owned:
  assumes "\<forall>e \<in> set es. map_of ob (fst e) = Some (snd e)"
    and "distinct (map fst es)"
    and "fst ` set es \<inter> fst ` set acc = {}"
  shows "reduce_loop ob mx (map fst es) acc sz = Inr (acc @ greedy_accept mx sz es)"
  using assms
proof (induction es arbitrary: acc sz)
  case Nil
  then show ?case by simp
next
  case (Cons e es)
  obtain k v where e: "e = (k, v)" by (cases e)
  from Cons.prems e have look: "get_prop ob k = Some v" by (simp add: get_prop_def)
  have size: "int (bfo v) = int (entry_size e)" by (simp add: bfo_def entry_size_def e)
  show ?case
  proof (cases "sz + int (entry_size e) > mx")
    case True
    with look size show ?thesis by (simp add: e)
  next
    case False
    from Cons.prems e have fresh: "k \<notin> fst ` set acc" by auto
    then have app: "assign acc k v = acc @ [(k, v)]" by (rule assign_fresh)
    from Cons.prems e have "fst ` set es \<inter> fst ` set (acc @ [(k, v)]) = {}" by auto
    with Cons.prems have
      "reduce_loop ob mx (map fst es) (acc @ [(k, v)]) (sz + int (entry_size e))
         = Inr ((acc @ [(k, v)]) @ greedy_accept mx (sz + int (entry_size e)) es)"
      by (intro Cons.IH) simp_all
    with False look size app show ?thesis by (simp add: e)
  qed
qed

lemma reduceByts_refines:
  assumes "distinct (map fst ob)"
  shows "reduceByts ob mx = Inr (evict_spec ob mx)"
proof -
  let ?g = "\<lambda>e. - int (entry_size e)"
  from assms have own: "\<forall>e \<in> set ob. map_of ob (fst e) = Some (snd e)" by simp
  then have keys: "Array_sort (by_size_desc ob) (Object_keys ob) = Inr (map fst (sort_key ?g ob))"
    unfolding Object_keys_def by (rule Array_sort_owned)
  from assms have "distinct ob" and "inj_on fst (set ob)" by (simp_all add: distinct_map)
  then have d: "distinct (map fst (sort_key ?g ob))" by (simp add: distinct_map)
  from own have "\<forall>e \<in> set (sort_key ?g ob). map_of ob (fst e) = Some (snd e)" by simp
  then have "reduce_loop ob mx (map fst (sort_key ?g ob)) [] 0 = Inr ([] @ greedy_accept mx 0 (sort_key ?g ob))"
    using d by (rule reduce_loop_owned) simp
  with keys show ?thesis by (simp add: reduceByts_def evict_spec_def largest_first_def)
qed

lemma largest_first_sorted:
  "sorted (map (\<lambda>e. - int (entry_size e)) (largest_first ob))" and "set (largest_first ob) = set ob"
  and "length (largest_first ob) = length ob"
  by (simp_all add: largest_first_def)

lemma sample_evict: "evict_spec sample_obj 200500 = [(''c'', blob 199998)]"
  by (simp add: evict_spec_def largest_first_def sample_obj_def entry_size_def digits.simps)

lemma lookup_spread:
  "distinct (map fst src) \<Longrightarrow>
     map_of (spread acc src) x = (case map_of src x of Some v \<Rightarrow> Some v | None \<Rightarrow> map_of acc x)"
  unfolding spread_def
proof (induction src arbitrary: acc)
  case Nil
  then show ?case by simp
next
  case (Cons p src)
  obtain k v where p: "p = (k, v)" by (cases p)
  from Cons.prems p have k: "map_of src k = None" by (simp add: map_of_eq_None_iff)
  from Cons.prems have "distinct (map fst src)" by simp
  then have "map_of (foldl (\<lambda>acc (k, v). assign acc k v) (assign acc k v) src) x
               = (case map_of src x of Some v \<Rightarrow> Some v | None \<Rightarrow> map_of (assign acc k v) x)"
    by (rule Cons.IH)
  with k show ?case by (simp add: p map_of_assign split: option.splits)
qed

lemma map_of_spread:
  "distinct (map fst src) \<Longrightarrow> map_of (spread acc src) = map_of acc ++ map_of src"
  by (simp add: fun_eq_iff lookup_spread map_add_def)

lemma fresh_store_simps:
  "Store_store (Store_new name) = []"
  "Store_proto (Store_new name) = []"
  "Store_max (Store_new name) = 250000"
  "Store_events (Store_new name) =
     [(''bytesLimitOver'', Reducebyts), (''removedFromTempStorage'', LogTempRemoved),
      (''removedFromFileStorag'', LogFileRemoved)]"
  by (simp_all add: Store_new_def Let_def)

lemma set_obj_simps:
  "Store_filePath (set_obj s w arg) = Store_filePath s"
  "Store_proto (set_obj s w arg) = Store_proto s"
  "Store_max (set_obj s w arg) = Store_max s"
  "Store_events (set_obj s w arg) = Store_events s"
  "Store_store (set_obj s w arg) = spread (getNewStore s w) arg"
  by (simp_all add: set_obj_def Let_def spread_Nil_id distinct_getNewStore)

lemma getNewStore_alt:
  "getNewStore s w = spread (spread [] (spread [] (getFormFile s w))) (spread [] (Store_store s))"
proof -
  have c: "(if 0 < length (Object_keys ob) then spread [] ob else []) = spread [] ob" for ob
    by (cases ob) (simp_all add: Object_keys_def spread_def)
  show ?thesis unfolding getNewStore_def Let_def c ..
qed

lemma merged_lookup_buffer:
  assumes "distinct (map fst (Store_store s))" and "map_of (Store_store s) k = Some v"
  shows "get_prop (getNewStore s w) k = Some v"
proof -
  from assms(1) have "getNewStore s w = spread (spread [] (spread [] (getFormFile s w))) (Store_store s)"
    by (simp add: getNewStore_alt spread_Nil_id)
  with assms show ?thesis by (simp add: get_prop_def map_of_spread)
qed

lemma get_after_set_obj:
  assumes "distinct (map fst arg)" and "map_of arg k = Some v"
  shows "get_prop (getNewStore (set_obj s w arg) w) k = Some v"
proof (rule merged_lookup_buffer)
  show "distinct (map fst (Store_store (set_obj s w arg)))"
    by (simp add: set_obj_simps distinct_spread distinct_getNewStore)
  from assms show "map_of (Store_store (set_obj s w arg)) k = Some v"
    by (simp add: set_obj_simps map_of_spread)
qed

lemma dequal_empty_snapshot: "ob \<noteq> [] \<Longrightarrow> \<not> dequal (JObj ob) (JObj [])"
  by simp

lemma set_then_write_persists:
  assumes "distinct (map fst arg)" and "map_of arg k = Some v"
  shows "persists (set_obj (Store_new name) w0 arg) w0"
proof -
  from get_after_set_obj [OF assms, of "Store_new name" w0]
  have "getNewStore (set_obj (Store_new name) w0 arg) w0 \<noteq> []"
    by (auto simp: get_prop_def)
  then show ?thesis
    by (simp add: persists_def set_obj_simps fresh_store_simps del: dequal.simps)
       (simp add: dequal_empty_snapshot)
qed

text \<open>The state after \<open>set({a: 1})\<close> and \<open>write()\<close> on a new store.\<close>

lemma set_then_write:
  assumes r: "Store_write (set_obj (Store_new name) w0 [(''a'', JNum 1)]) w0 = (e1, s2, w2)"
  defines "ns \<equiv> getNewStore (set_obj (Store_new name) w0 [(''a'', JNum 1)]) w0"
  shows "Store_store s2 = []" and "Store_proto s2 = ns"
    and "Store_filePath s2 = Store_filePath (Store_new name)"
    and "Store_events s2 = Store_events (Store_new name)"
    and "files w2 = (files w0)(Store_filePath (Store_new name) \<mapsto> ns)"
    and "get_prop ns ''a'' = Some (JNum 1)" and "distinct (map fst ns)"
    and "getFormFile s2 w2 = ns"
proof -
  have p: "persists (set_obj (Store_new name) w0 [(''a'', JNum 1)]) w0"
    by (rule set_then_write_persists [where k = "''a''" and v = "JNum 1"]) simp_all
  note w = write_persists [OF p [unfolded persists_def] r, folded ns_def]
  from w show "Store_store s2 = []" and "Store_proto s2 = ns"
    and "Store_filePath s2 = Store_filePath (Store_new name)"
    and "Store_events s2 = Store_events (Store_new name)"
    and f: "files w2 = (files w0)(Store_filePath (Store_new name) \<mapsto> ns)"
    by (simp_all add: set_obj_simps)
  show "get_prop ns ''a'' = Some (JNum 1)"
    unfolding ns_def by (rule get_after_set_obj) simp_all
  show "distinct (map fst ns)" unfolding ns_def by (rule distinct_getNewStore)
  from w f show "getFormFile s2 w2 = ns" by (simp add: getFormFile_def set_obj_simps)
qed

lemma fresh_merged:
  assumes "files w (Store_filePath (Store_new name)) = Some ob" and "distinct (map fst ob)"
  shows "getNewStore (Store_new name) w = ob"
  using assms by (intro getNewStore_after_write) (simp_all add: fresh_store_simps)

lemma emit_removedFromFileStorage:
  "Store_events s = Store_events (Store_new name) \<Longrightarrow>
   emit s ''removedFromFileStorage'' args w
     = (None, w\<lparr>emitted := emitted w @ [(''removedFromFileStorage'', args)]\<rparr>)"
  by (simp add: emit_def fresh_store_simps)

lemma delete_key_shorter:
  assumes "key \<in> fst ` set ob"
  shows "length (delete_key ob key) < length ob"
proof -
  from assms obtain v where "(key, v) \<in> set ob" by auto
  then show ?thesis unfolding delete_key_def by (rule length_filter_less) simp
qed

lemma delete_key_lookup: "map_of (delete_key ob key) key = None"
  by (auto simp: delete_key_def map_of_eq_None_iff)

lemma delete_key_distinct: "distinct (map fst ob) \<Longrightarrow> distinct (map fst (delete_key ob key))"
  by (simp add: delete_key_def distinct_map_filter)

lemma settled_case_eq:
  "settled_case =
     ((Store_new None)\<lparr>Store_store := [], Store_proto := [(''a'', JNum 1)]\<rparr>,
      empty_world\<lparr>files := (\<lambda>p. None)(Store_filePath (Store_new None) \<mapsto> [(''a'', JNum 1)]),
                  dirs := [''.lwe8_store''],
                  written := [(Store_filePath (Store_new None), [(''a'', JNum 1)])]\<rparr>)"
  by (simp add: settled_case_def set_obj_def Store_write_def getNewStore_def getFormFile_def
      firstWrite_def checkDir_def p_write_def emitEvent_def bfo_def quote_def escape_char_def
      digits.simps empty_world_def Store_new_def Let_def spread_def Object_keys_def)

lemma settled_write:
  "Store_write (fst settled_case) (snd settled_case) = (None, fst settled_case, snd settled_case)"
proof (rule write_noop)
  show "firstWrite (fst settled_case) (snd settled_case)"
    by (simp add: settled_case_eq firstWrite_def)
  have "getNewStore (fst settled_case) (snd settled_case) = [(''a'', JNum 1)]"
    by (rule getNewStore_after_write) (simp_all add: settled_case_eq)
  moreover have "Store_proto (fst settled_case) = [(''a'', JNum 1)]"
    by (simp add: settled_case_eq)
  ultimately show "dequal (JObj (getNewStore (fst settled_case) (snd settled_case)))
                     (JObj (Store_proto (fst settled_case)))"
    by simp
qed

section \<open>The claims\<close>

text \<open>
  C1, as stated, fails in its second half: after \<open>set({a: 1})\<close> and \<open>write()\<close> the
  backing file exists and the merged view equals the snapshot, and two more calls of
  \<open>write\<close> in a row perform no disk write at all, not exactly one.
\<close>

theorem two_writes_of_unchanged_store:
  "firstWrite (fst settled_case) (snd settled_case)
   \<and> Store_write (fst settled_case) (snd settled_case) = (None, fst settled_case, snd settled_case)
   \<and> Store_write (fst (snd (Store_write (fst settled_case) (snd settled_case))))
         (snd (snd (Store_write (fst settled_case) (snd settled_case))))
       = (None, fst settled_case, snd settled_case)
   \<and> written (snd (snd (Store_write (fst (snd (Store_write (fst settled_case) (snd settled_case))))
         (snd (snd (Store_write (fst settled_case) (snd settled_case)))))))
       = written (snd settled_case)"
  by (simp add: settled_write) (simp add: settled_case_eq firstWrite_def)

text \<open>
  C1, amended. For a store whose backing file exists, \<open>write\<close> rewrites the file exactly
  when the merged view differs from the last persisted snapshot under \<open>dequal\<close>. A second
  call right after the first is always a no-op, so two calls in a row perform at most one
  disk write: exactly one when the merged view differed from the snapshot before the first
  call, none otherwise.
\<close>

theorem write_rewrites_iff_changed:
  assumes "firstWrite s w" and "wf_state s w"
    and "Store_write s w = (e1, s1, w1)" and "Store_write s1 w1 = (e2, s2, w2)"
  shows "(written w1 \<noteq> written w) = (\<not> dequal (JObj (getNewStore s w)) (JObj (Store_proto s)))
       \<and> (\<not> dequal (JObj (getNewStore s w)) (JObj (Store_proto s)) \<longrightarrow>
            written w1 = written w @ [(Store_filePath s, getNewStore s w)]
            \<and> files w1 (Store_filePath s) = Some (getNewStore s w))
       \<and> (dequal (JObj (getNewStore s w)) (JObj (Store_proto s)) \<longrightarrow>
            e1 = None \<and> s1 = s \<and> w1 = w)
       \<and> e2 = None \<and> s2 = s1 \<and> w2 = w1
       \<and> length (written w2) =
           length (written w) + (if dequal (JObj (getNewStore s w)) (JObj (Store_proto s)) then 0 else 1)"
proof -
  let ?same = "dequal (JObj (getNewStore s w)) (JObj (Store_proto s))"
  have second: "e2 = None \<and> s2 = s1 \<and> w2 = w1"
    using write_twice [OF assms(2) assms(3)] assms(4) by simp
  show ?thesis
  proof (cases ?same)
    case True
    with assms(1) have "Store_write s w = (None, s, w)" by (rule write_noop)
    with assms(3) have "e1 = None \<and> s1 = s \<and> w1 = w" by simp
    with True second show ?thesis by (simp del: dequal.simps)
  next
    case False
    then have p: "\<not> firstWrite s w \<or> \<not> ?same" by simp
    from write_persists(2,3) [OF p assms(3)] False second show ?thesis
      by (simp del: dequal.simps)
  qed
qed

theorem write_rewrites_iff_changed_witness:
  "firstWrite demo_store demo_world \<and> wf_state demo_store demo_world
   \<and> written (snd (snd (Store_write demo_store demo_world))) \<noteq> written demo_world
   \<and> \<not> dequal (JObj (getNewStore demo_store demo_world)) (JObj (Store_proto demo_store))
   \<and> Store_write (fst (snd (Store_write demo_store demo_world)))
        (snd (snd (Store_write demo_store demo_world)))
      = (None, fst (snd (Store_write demo_store demo_world)),
         snd (snd (Store_write demo_store demo_world)))"
proof -
  let ?r = "Store_write demo_store demo_world"
  let ?r2 = "Store_write (fst (snd ?r)) (snd (snd ?r))"
  have h1: "firstWrite demo_store demo_world"
    by (simp add: firstWrite_def demo_store_def demo_world_def Store_new_def)
  have h2: "wf_state demo_store demo_world"
    by (simp add: wf_state_def wf_obj_def getFormFile_def demo_store_def demo_world_def Store_new_def)
  have h3: "?r = (fst ?r, fst (snd ?r), snd (snd ?r))" by simp
  have h4: "?r2 = (fst ?r2, fst (snd ?r2), snd (snd ?r2))" by simp
  have d: "\<not> dequal (JObj (getNewStore demo_store demo_world)) (JObj (Store_proto demo_store))"
    by (simp add: getNewStore_def getFormFile_def demo_store_def demo_world_def Store_new_def
        spread_def Object_keys_def)
  from write_rewrites_iff_changed [OF h1 h2 h3 h4] d h1 h2 h4 show ?thesis
    by (simp del: dequal.simps)
qed

text \<open>
  C2. On every mapping (an object, so its keys are distinct) and every budget,
  \<open>reduceByts\<close> returns without error, and what it returns is the mapping of the
  description: the entries sorted by descending byte length of the serialized value, accepted
  in that order while the running total stays within the budget, and nothing after the first
  entry that does not fit. On values of 5000, 1 and 200000 bytes under the keys \<open>a\<close>,
  \<open>b\<close>, \<open>c\<close> and the budget 200500 the result holds \<open>c\<close> alone.
\<close>

theorem reduceByts_largest_first_greedy:
  "(distinct (map fst ob) \<longrightarrow> reduceByts ob mx = Inr (evict_spec ob mx))
   \<and> reduceByts sample_obj 200500 = Inr [(''c'', blob 199998)]"
proof
  show "distinct (map fst ob) \<longrightarrow> reduceByts ob mx = Inr (evict_spec ob mx)"
    by (simp add: reduceByts_refines)
  have "distinct (map fst sample_obj)" by (simp add: sample_obj_def)
  then show "reduceByts sample_obj 200500 = Inr [(''c'', blob 199998)]"
    by (simp add: reduceByts_refines sample_evict)
qed

theorem reduceByts_largest_first_greedy_witness:
  "distinct (map fst [(''a'', JStr ''hello''), (''b'', JNum 1), (''c'', JStr ''hello world''), (''d'', JStr ''hellp'')])
   \<and> reduceByts [(''a'', JStr ''hello''), (''b'', JNum 1), (''c'', JStr ''hello world''), (''d'', JStr ''hellp'')] 20
       = Inr [(''c'', JStr ''hello world''), (''a'', JStr ''hello'')]"
proof -
  let ?ob = "[(''a'', JStr ''hello''), (''b'', JNum 1), (''c'', JStr ''hello world''), (''d'', JStr ''hellp'')]"
  have d: "distinct (map fst ?ob)" by simp
  have "evict_spec ?ob 20 = [(''c'', JStr ''hello world''), (''a'', JStr ''hello'')]"
    by (simp add: evict_spec_def largest_first_def entry_size_def quote_def escape_char_def digits.simps)
  with reduceByts_largest_first_greedy [of ?ob 20] d show ?thesis by simp
qed

text \<open>
  C3. After a call of \<open>write\<close> that takes one of its two writing branches (no backing
  file yet, or a merged view that differs from the snapshot), the snapshot is the merged
  mapping, the file holds that mapping, it is the last thing written, and the pending buffer
  is empty. This holds for every outcome of the call, the successful ones included. (A call
  that takes neither branch writes nothing and changes nothing.)
\<close>

theorem write_records_snapshot:
  assumes "persists s w" and "Store_write s w = (e1, s1, w1)"
  shows "Store_proto s1 = getNewStore s w
       \<and> files w1 (Store_filePath s1) = Some (getNewStore s w)
       \<and> written w1 = written w @ [(Store_filePath s1, getNewStore s w)]
       \<and> Store_store s1 = []"
  using write_persists [OF assms [unfolded persists_def]] by simp

theorem write_records_snapshot_witness:
  "persists demo_store demo_world
   \<and> fst (Store_write demo_store demo_world) = None
   \<and> Store_proto (fst (snd (Store_write demo_store demo_world))) = [(''a'', JNum 1), (''b'', JNum 2)]
   \<and> files (snd (snd (Store_write demo_store demo_world))) (Store_filePath demo_store)
       = Some [(''a'', JNum 1), (''b'', JNum 2)]
   \<and> Store_store (fst (snd (Store_write demo_store demo_world))) = []"
proof -
  let ?r = "Store_write demo_store demo_world"
  have h: "?r = (fst ?r, fst (snd ?r), snd (snd ?r))" by simp
  note m = demo_merged
  have ok: "int (bfo (JObj (getNewStore demo_store demo_world))) \<le> Store_max demo_store"
    by (simp add: m bfo_def quote_def escape_char_def digits.simps demo_store_simps)
  note ev = demo_store_simps(2)
  have p: "Store_filePath (fst (snd ?r)) = Store_filePath demo_store"
    using write_persists(1) [OF persists_demo [unfolded persists_def] h] by simp
  from write_records_snapshot [OF persists_demo h] write_error [OF persists_demo h ev] ok m p
  show ?thesis by (simp add: persists_demo)
qed

text \<open>
  C4, as stated, fails: \<open>remove("b")\<close> on a new store whose backing file holds an entry
  over the budget rewrites the file, the merged mapping is still over the budget, and no
  \<open>bytesLimitOver\<close> notification is emitted.
\<close>

theorem remove_skips_budget_check:
  "fst (Store_remove (Store_new None) heavy_world [''b'']) = None
   \<and> written (snd (snd (Store_remove (Store_new None) heavy_world [''b''])))
       = written heavy_world @ [(Store_filePath (Store_new None), [(''a'', blob 250000)])]
   \<and> int (bfo (JObj (getNewStore (fst (snd (Store_remove (Store_new None) heavy_world [''b''])))
                        (snd (snd (Store_remove (Store_new None) heavy_world [''b'']))))))
       > Store_max (fst (snd (Store_remove (Store_new None) heavy_world [''b''])))
   \<and> emitted (snd (snd (Store_remove (Store_new None) heavy_world [''b''])))
       = [(''removedFromFileStorage'', [''b''])]"
proof -
  have "getNewStore
          ((Store_new None)\<lparr>Store_store := [], Store_proto := [(''a'', blob 250000)]\<rparr>)
          (heavy_world\<lparr>files := (files heavy_world)(Store_filePath (Store_new None) \<mapsto> [(''a'', blob 250000)]),
                  written := [(Store_filePath (Store_new None), [(''a'', blob 250000)])],
                  emitted := [(''removedFromFileStorage'', [''b''])]\<rparr>)
        = [(''a'', blob 250000)]"
    by (rule getNewStore_after_write) simp_all
  moreover have "written heavy_world = []" by (simp add: heavy_world_def empty_world_def)
  moreover have "Store_max (Store_new None) = 250000" by (simp add: Store_new_def Let_def)
  ultimately show ?thesis by (simp add: heavy_remove bfo_def)
qed

text \<open>
  C4, amended. After every call of \<open>write\<close> that persists, the byte size of the merged
  mapping is computed and the \<open>bytesLimitOver\<close> notification is emitted exactly when it
  exceeds the budget. A call of \<open>remove\<close> emits no \<open>bytesLimitOver\<close> notification, whether
  it rewrites the file or not.
\<close>

theorem budget_check_after_write_only:
  "(persists s w \<and> Store_write s w = (e1, s1, w1) \<longrightarrow>
      emitted w1 = emitted w @ (if int (bfo (JObj (getNewStore s1 w1))) > Store_max s1
                                then [(''bytesLimitOver'', [])] else [])
      \<and> getNewStore s1 w1 = getNewStore s w)
   \<and> (Store_remove s w args = (e2, s2, w2) \<longrightarrow>
        filter (\<lambda>ev. fst ev = ''bytesLimitOver'') (emitted w2)
        = filter (\<lambda>ev. fst ev = ''bytesLimitOver'') (emitted w))"
proof (intro conjI impI)
  assume a: "persists s w \<and> Store_write s w = (e1, s1, w1)"
  then have p: "\<not> firstWrite s w \<or> \<not> dequal (JObj (getNewStore s w)) (JObj (Store_proto s))"
    and r: "Store_write s w = (e1, s1, w1)"
    by (simp_all add: persists_def)
  note w = write_persists [OF p r]
  show m: "getNewStore s1 w1 = getNewStore s w"
    by (rule getNewStore_after_write) (use w in \<open>simp_all add: distinct_getNewStore\<close>)
  from w(1) have "Store_max s1 = Store_max s" by simp
  with w(4) m show "emitted w1 = emitted w @ (if int (bfo (JObj (getNewStore s1 w1))) > Store_max s1
                                then [(''bytesLimitOver'', [])] else [])"
    by simp
next
  assume "Store_remove s w args = (e2, s2, w2)"
  then show "filter (\<lambda>ev. fst ev = ''bytesLimitOver'') (emitted w2)
        = filter (\<lambda>ev. fst ev = ''bytesLimitOver'') (emitted w)"
    by (rule remove_frame)
qed

theorem budget_check_after_write_only_witness:
  "persists big_store empty_world
   \<and> emitted (snd (snd (Store_write big_store empty_world))) = [(''bytesLimitOver'', [])]
   \<and> filter (\<lambda>ev. fst ev = ''bytesLimitOver'')
        (emitted (snd (snd (Store_remove big_store empty_world [''k''])))) = []"
proof -
  let ?r = "Store_write big_store empty_world"
  let ?q = "Store_remove big_store empty_world [''k'']"
  have h: "?r = (fst ?r, fst (snd ?r), snd (snd ?r))" by simp
  have g: "?q = (fst ?q, fst (snd ?q), snd (snd ?q))" by simp
  have e: "emitted empty_world = []" by (simp add: empty_world_def)
  from budget_check_after_write_only [of big_store empty_world "fst ?r" "fst (snd ?r)" "snd (snd ?r)"
      "[''k'']" "fst ?q" "fst (snd ?q)" "snd (snd ?q)"]
    big_store_persists h g
  have "emitted (snd (snd ?r)) =
          emitted empty_world @ (if int (bfo (JObj (getNewStore (fst (snd ?r)) (snd (snd ?r)))))
                > Store_max (fst (snd ?r)) then [(''bytesLimitOver'', [])] else [])"
    and "getNewStore (fst (snd ?r)) (snd (snd ?r)) = getNewStore big_store empty_world"
    and "filter (\<lambda>ev. fst ev = ''bytesLimitOver'') (emitted (snd (snd ?q)))
          = filter (\<lambda>ev. fst ev = ''bytesLimitOver'') (emitted empty_world)"
    by simp_all
  moreover have "Store_max (fst (snd ?r)) = Store_max big_store"
    using write_persists(1) [OF big_store_persists [unfolded persists_def] h] by simp
  ultimately show ?thesis using big_store_over big_store_persists e by simp
qed

text \<open>
  C5. When the merged mapping is over the budget, a call of \<open>write\<close> that persists
  leaves the full merged mapping in the backing file and in the snapshot and empties the
  buffer. A call that does not persist changes nothing: the snapshot equals the merged
  mapping under \<open>dequal\<close>, and so does the file when the snapshot is what the file holds.
  No reduced mapping reaches the file, the snapshot or the buffer.
\<close>

theorem eviction_is_advisory:
  assumes "int (bfo (JObj (getNewStore s w))) > Store_max s"
    and "Store_write s w = (e1, s1, w1)"
  shows "(persists s w \<longrightarrow>
            files w1 = (files w)(Store_filePath s \<mapsto> getNewStore s w)
          \<and> written w1 = written w @ [(Store_filePath s, getNewStore s w)]
          \<and> Store_proto s1 = getNewStore s w
          \<and> Store_store s1 = [])
       \<and> (\<not> persists s w \<longrightarrow>
            s1 = s \<and> w1 = w \<and> dequal (JObj (getNewStore s w)) (JObj (Store_proto s))
          \<and> (getFormFile s w = Store_proto s \<longrightarrow>
                dequal (JObj (getNewStore s w)) (JObj (getFormFile s1 w1))))"
proof (cases "persists s w")
  case True
  from write_persists [OF True [unfolded persists_def] assms(2)] True show ?thesis by simp
next
  case False
  then have "firstWrite s w" and d: "dequal (JObj (getNewStore s w)) (JObj (Store_proto s))"
    by (simp_all add: persists_def)
  then have "Store_write s w = (None, s, w)" by (rule write_noop)
  with assms(2) False d show ?thesis by simp
qed

theorem eviction_is_advisory_witness:
  "int (bfo (JObj (getNewStore big_store empty_world))) > Store_max big_store
   \<and> persists big_store empty_world
   \<and> files (snd (snd (Store_write big_store empty_world))) (Store_filePath big_store)
       = Some [(''k'', blob 250000)]
   \<and> Store_proto (fst (snd (Store_write big_store empty_world))) = [(''k'', blob 250000)]
   \<and> Store_store (fst (snd (Store_write big_store empty_world))) = []"
proof -
  let ?r = "Store_write big_store empty_world"
  have h: "?r = (fst ?r, fst (snd ?r), snd (snd ?r))" by simp
  from eviction_is_advisory [OF big_store_over h] big_store_persists big_store_over
  show ?thesis by (simp add: big_store_merged)
qed

text \<open>
  C6. The claim is that \<open>write\<close> completes without error also when the merged
  mapping is over the budget. On a new store with one pending entry of 250002 bytes the
  call writes the file, emits \<open>bytesLimitOver\<close> and ends with the TypeError of the
  listener: the constructor registers \<open>this.reducebyts\<close> unbound, so the emitter calls it
  with itself as \<open>this\<close>.
\<close>

theorem write_throws_over_budget:
  "fst (Store_write big_store empty_world) = Some TypeError
   \<and> files (snd (snd (Store_write big_store empty_world))) (Store_filePath big_store)
       = Some [(''k'', blob 250000)]
   \<and> emitted (snd (snd (Store_write big_store empty_world))) = [(''bytesLimitOver'', [])]"
proof -
  let ?r = "Store_write big_store empty_world"
  have h: "?r = (fst ?r, fst (snd ?r), snd (snd ?r))" by simp
  note write_error [OF big_store_persists h big_store_simps(4)] big_store_over
    write_persists(2,4) [OF big_store_persists [unfolded persists_def] h]
  moreover
  have "emitted empty_world = []" by (simp add: empty_world_def)
  ultimately show ?thesis by (simp add: big_store_merged)
qed

text \<open>
  C7. The claim is that \<open>remove\<close> leaves every pending entry it was not asked to
  remove in the buffer. After \<open>set({a: 1, b: 2})\<close>, \<open>write()\<close> and \<open>set({c: 3})\<close> the
  call \<open>remove("a")\<close> rewrites the file through \<open>_write\<close>, which empties the whole
  buffer: the pending entry \<open>c\<close> is gone from the buffer and was never written.
\<close>

theorem remove_drops_pending_entries:
  "Store_store (fst pending_case) = [(''a'', JNum 1), (''b'', JNum 2), (''c'', JNum 3)]
   \<and> fst (Store_remove (fst pending_case) (snd pending_case) [''a'']) = None
   \<and> Store_store (fst (snd (Store_remove (fst pending_case) (snd pending_case) [''a'']))) = []
   \<and> Store_get (fst (snd (Store_remove (fst pending_case) (snd pending_case) [''a'']))) 
         (snd (snd (Store_remove (fst pending_case) (snd pending_case) [''a'']))) ''c'' = Undefined"
  by (simp add: pending_case_eq Store_remove_def Store_get_def read_prop_def Object_prototype_names_def
      get_prop_def getNewStore_def
      getFormFile_def p_write_def emit_def console_log_def first_arg_def delete_key_def
      empty_world_def Store_new_def Let_def spread_def Object_keys_def)

text \<open>
  C8. After \<open>set({a: 1})\<close> and \<open>write()\<close> on a new store, over any file system, the
  call \<open>remove("a")\<close> finds the file's mapping without \<open>a\<close> different from the snapshot
  and rewrites the file itself, with no call of \<open>write\<close>: one more entry in the log of
  file writes, the file and the snapshot without \<open>a\<close>. A new store of the same name then
  returns \<open>undefined\<close> from \<open>get("a")\<close>.
\<close>

theorem remove_after_write_rewrites:
  assumes "Store_write (set_obj (Store_new name) w0 [(''a'', JNum 1)]) w0 = (e1, s2, w2)"
    and "Store_remove s2 w2 [''a''] = (e3, s3, w3)"
  shows "e3 = None
       \<and> get_prop (getFormFile s2 w2) ''a'' = Some (JNum 1)
       \<and> \<not> dequal (JObj (delete_key (getFormFile s2 w2) ''a'')) (JObj (Store_proto s2))
       \<and> written w3 = written w2 @ [(Store_filePath (Store_new name), delete_key (getFormFile s2 w2) ''a'')]
       \<and> files w3 (Store_filePath (Store_new name)) = Some (delete_key (getFormFile s2 w2) ''a'')
       \<and> Store_proto s3 = delete_key (getFormFile s2 w2) ''a''
       \<and> Store_get (Store_new name) w3 ''a'' = Undefined"
proof -
  let ?ns = "getNewStore (set_obj (Store_new name) w0 [(''a'', JNum 1)]) w0"
  let ?fs = "delete_key ?ns ''a''"
  note st = set_then_write [OF assms(1)]
  from st(6) have key: "''a'' \<in> fst ` set ?ns"
    by (auto simp: get_prop_def dest: map_of_SomeD intro: rev_image_eqI)
  then have "length ?fs < length ?ns" by (rule delete_key_shorter)
  then have diff: "\<not> dequal (JObj ?fs) (JObj ?ns)" by simp
  from key st have loop: "remove_keys [''a''] s2 ?ns w2
      = (None, s2, ?fs, w2\<lparr>emitted := emitted w2 @ [(''removedFromFileStorage'', [''a''])]\<rparr>)"
    by (simp add: Object_keys_def Let_def emit_removedFromFileStorage [of _ name])
  from assms(2) st loop diff
  have e3: "e3 = None" and s3: "s3 = s2\<lparr>Store_store := [], Store_proto := ?fs\<rparr>"
    and w3: "w3 = w2\<lparr>emitted := emitted w2 @ [(''removedFromFileStorage'', [''a''])],
                     files := (files w2)(Store_filePath (Store_new name) \<mapsto> ?fs),
                     written := written w2 @ [(Store_filePath (Store_new name), ?fs)]\<rparr>"
    by (simp_all add: Store_remove_def p_write_def del: dequal.simps remove_keys.simps)
  from w3 have "files w3 (Store_filePath (Store_new name)) = Some ?fs" by simp
  moreover from st(7) have "distinct (map fst ?fs)" by (rule delete_key_distinct)
  ultimately have "getNewStore (Store_new name) w3 = ?fs" by (rule fresh_merged)
  then have "Store_get (Store_new name) w3 ''a'' = Undefined"
    by (simp add: Store_get_def read_prop_def Object_prototype_names_def get_prop_def
        delete_key_lookup)
  with e3 s3 w3 st diff show ?thesis by (simp del: dequal.simps)
qed

theorem remove_after_write_rewrites_witness:
  "length (written (snd (snd
      (Store_write (set_obj (Store_new None) empty_world [(''a'', JNum 1)]) empty_world)))) = 1
   \<and> written (snd (snd (Store_remove
        (fst (snd (Store_write (set_obj (Store_new None) empty_world [(''a'', JNum 1)]) empty_world)))
        (snd (snd (Store_write (set_obj (Store_new None) empty_world [(''a'', JNum 1)]) empty_world)))
        [''a''])))
      = [(Store_filePath (Store_new None), [(''a'', JNum 1)]), (Store_filePath (Store_new None), [])]
   \<and> Store_get (Store_new None) (snd (snd (Store_remove
        (fst (snd (Store_write (set_obj (Store_new None) empty_world [(''a'', JNum 1)]) empty_world)))
        (snd (snd (Store_write (set_obj (Store_new None) empty_world [(''a'', JNum 1)]) empty_world)))
        [''a'']))) ''a'' = Undefined"
proof -
  let ?r = "Store_write (set_obj (Store_new None) empty_world [(''a'', JNum 1)]) empty_world"
  let ?q = "Store_remove (fst (snd ?r)) (snd (snd ?r)) [''a'']"
  have h: "?r = (fst ?r, fst (snd ?r), snd (snd ?r))" by simp
  have g: "?q = (fst ?q, fst (snd ?q), snd (snd ?q))" by simp
  have r: "?r = (None,
      (Store_new None)\<lparr>Store_store := [], Store_proto := [(''a'', JNum 1)]\<rparr>,
      empty_world\<lparr>files := (\<lambda>p. None)(Store_filePath (Store_new None) \<mapsto> [(''a'', JNum 1)]),
                  dirs := [''.lwe8_store''],
                  written := [(Store_filePath (Store_new None), [(''a'', JNum 1)])]\<rparr>)"
    by (simp add: set_obj_def Store_write_def getNewStore_def getFormFile_def
      firstWrite_def checkDir_def p_write_def emitEvent_def bfo_def quote_def escape_char_def
      digits.simps empty_world_def Store_new_def Let_def spread_def Object_keys_def)
  from remove_after_write_rewrites [OF h g] show ?thesis
    by (simp add: r getFormFile_def delete_key_def)
qed

text \<open>
  C9. After \<open>set({a: 1})\<close> and \<open>write()\<close> on a new store, over any file system, a
  second new store of the same name returns 1 from \<open>get("a")\<close>. Its buffer is empty, so
  the value is read from the backing file. When there was no backing file before, the call
  of \<open>write\<close> ends without error and the file holds \<open>{a: 1}\<close>.
\<close>

theorem round_trip_fresh_instance:
  assumes "Store_write (set_obj (Store_new name) w0 [(''a'', JNum 1)]) w0 = (e1, s2, w2)"
  shows "Store_get (Store_new name) w2 ''a'' = Value (JNum 1)
       \<and> Store_store (Store_new name) = []
       \<and> get_prop (getFormFile (Store_new name) w2) ''a'' = Some (JNum 1)
       \<and> (files w0 (Store_filePath (Store_new name)) = None \<longrightarrow>
            e1 = None \<and> files w2 (Store_filePath (Store_new name)) = Some [(''a'', JNum 1)])"
proof -
  let ?s1 = "set_obj (Store_new name) w0 [(''a'', JNum 1)]"
  let ?ns = "getNewStore ?s1 w0"
  note st = set_then_write [OF assms]
  from st have stored: "files w2 (Store_filePath (Store_new name)) = Some ?ns" by simp
  then have m: "getNewStore (Store_new name) w2 = ?ns" using st(7) by (rule fresh_merged)
  from m st(6) have g: "Store_get (Store_new name) w2 ''a'' = Value (JNum 1)"
    by (simp add: Store_get_def read_prop_def)
  from stored st(6) have f: "get_prop (getFormFile (Store_new name) w2) ''a'' = Some (JNum 1)"
    by (simp add: getFormFile_def)
  have "e1 = None \<and> files w2 (Store_filePath (Store_new name)) = Some [(''a'', JNum 1)]"
    if nofile: "files w0 (Store_filePath (Store_new name)) = None"
  proof -
    from nofile have ns: "?ns = [(''a'', JNum 1)]"
      by (simp add: getNewStore_alt getFormFile_def set_obj_simps fresh_store_simps spread_def)
    have p: "persists ?s1 w0"
      by (rule set_then_write_persists [where k = "''a''" and v = "JNum 1"]) simp_all
    have "Store_events ?s1 = Store_events (Store_new name)" by (simp add: set_obj_simps)
    from write_error [OF p assms this] ns have "e1 = None"
      by (simp add: set_obj_simps fresh_store_simps bfo_def quote_def escape_char_def digits.simps)
    with stored ns show ?thesis by simp
  qed
  with g f show ?thesis by (simp add: fresh_store_simps)
qed

theorem round_trip_fresh_instance_witness:
  "files empty_world (Store_filePath (Store_new None)) = None
   \<and> fst (Store_write (set_obj (Store_new None) empty_world [(''a'', JNum 1)]) empty_world) = None
   \<and> Store_get (Store_new None)
        (snd (snd (Store_write (set_obj (Store_new None) empty_world [(''a'', JNum 1)]) empty_world)))
        ''a'' = Value (JNum 1)"
proof -
  let ?r = "Store_write (set_obj (Store_new None) empty_world [(''a'', JNum 1)]) empty_world"
  have h: "?r = (fst ?r, fst (snd ?r), snd (snd ?r))" by simp
  have n: "files empty_world (Store_filePath (Store_new None)) = None" by (simp add: empty_world_def)
  from round_trip_fresh_instance [OF h] n show ?thesis by simp
qed




end
